theory Spec2Isabelle
  imports Main "HOL-Library.Word"
begin

unbundle bit_operations_syntax

section \<open>The pulse generator of pulse.c\<close>

text \<open>
  The program drives the OC4 output compare of a 68HC11.  Its interrupt handler
  \<open>output_compare_interrupt\<close> programs the next compare value from the previous one and
  a static table of durations; \<open>main\<close> arms the first compare and then waits for 1000
  wakeups.  \<open>unsigned short\<close> is a 16-bit word and \<open>unsigned char\<close> an 8-bit word,
  so every addition below wraps as it does on the target.
\<close>

subsection \<open>The cycle table\<close>

type_synonym ushort = "16 word"
type_synonym uchar = "8 word"

text \<open>\<open>#define US_TO_CYCLE(N) ((N) * 2)\<close>, evaluated by the compiler on integer constants.\<close>

definition US_TO_CYCLE :: "int \<Rightarrow> int" where
  "US_TO_CYCLE N = N * 2"

text \<open>
  \<open>static const unsigned short cycle_table[]\<close>: each initialiser is converted to
  \<open>unsigned short\<close>.  The table is a constant of the program; no operation has it in
  its state.
\<close>

definition cycle_table :: "ushort list" where
  "cycle_table = map (\<lambda>N. word_of_int (US_TO_CYCLE N))
     [500, 500, 500, 1000, 1000, 5000, 100, 500, 5000, 1000, 100, 100]"

text \<open>\<open>#define TABLE_SIZE(T) ((sizeof T / sizeof T[0]))\<close>\<close>

definition TABLE_SIZE :: "'a list \<Rightarrow> nat" where
  "TABLE_SIZE T = length T"

text \<open>
  The comment on the table: "A value below 100 cycles will produce a 32ms pulse".  The
  program has no check of it; \<open>undersized\<close> is the validation pass over a table that
  the specification asks for, returning the entries it flags.
\<close>

definition min_cycles :: ushort where
  "min_cycles = 100"

definition undersized :: "ushort list \<Rightarrow> ushort list" where
  "undersized T = filter (\<lambda>v. v < min_cycles) T"

subsection \<open>State, environment and observable effects\<close>

text \<open>
  The constants of the header \<^verbatim>\<open>sys/ports.h\<close> that the program names are not part of the
  repository's sources; they are a parameter of the model.
\<close>

record ports_h =
  M6811_TCTL1 :: uchar
  M6811_TMSK1 :: uchar
  M6811_TFLG1 :: uchar
  M6811_OL4 :: uchar
  M6811_OC4I :: uchar
  M6811_OC4F :: uchar

text \<open>
  What the program does to the world, in the order it does it: stores to the device
  registers, calls of the board library, and the stores to its three globals together
  with the read through the cursor.  The calls \<open>lock\<close>, \<open>unlock\<close>,
  \<open>serial_init\<close> and \<open>set_interrupt_handler\<close> of the board library are logged
  and touch none of the program's globals.  How the hardware reacts to a store (the
  flag it clears, the pin it toggles) is outside the program.
\<close>

datatype event =
    Lock
  | Unlock
  | SerialInit
  | SetInterruptHandler
  | IoWrite uchar uchar
  | SetOutputCompare4 ushort
  | SerialSend char
  | TableRead nat
  | StoreCycleNext nat
  | StoreChangeTime ushort
  | StoreWakeup uchar

text \<open>
  The three globals of the program, the device as the program reads it, and the log of
  effects.  \<open>cycle_next\<close> is a pointer into \<open>cycle_table\<close>; it is modelled by its
  offset from the table's first element, counted in elements.  \<open>tcnt\<close> is the
  free-running counter and \<open>io_ports\<close> the value a read of a device register returns;
  both belong to the hardware.
\<close>

record state =
  cycle_next :: nat
  wakeup :: uchar
  change_time :: ushort
  tcnt :: ushort
  io_ports :: "uchar \<Rightarrow> uchar"
  trace :: "event list"

datatype failure = OutOfBounds | SpinsForever

definition emit :: "event \<Rightarrow> state \<Rightarrow> state" where
  "emit e s = s\<lparr>trace := trace s @ [e]\<rparr>"

text \<open>\<open>_io_ports[a] = v\<close>: a store to a device register.\<close>

definition io_write :: "uchar \<Rightarrow> uchar \<Rightarrow> state \<Rightarrow> state" where
  "io_write a v s = emit (IoWrite a v) s"

text \<open>
  Modelled from the spec: \<open>set_output_compare_4\<close> of the board library is the
  service "set a hardware compare target" (\<open>arm_compare(target_ticks)\<close>).
\<close>

definition set_output_compare_4 :: "ushort \<Rightarrow> state \<Rightarrow> state" where
  "set_output_compare_4 v s = emit (SetOutputCompare4 v) s"

text \<open>
  Modelled from the spec: \<open>get_timer_counter\<close> of the board library is the service
  "read the current free-running counter" (\<open>read_counter() -> ticks\<close>).
\<close>

definition get_timer_counter :: "state \<Rightarrow> ushort" where
  "get_timer_counter s = tcnt s"

text \<open>Modelled from the spec: \<open>serial_send\<close> is the service "transmit one byte".\<close>

definition serial_send :: "char \<Rightarrow> state \<Rightarrow> state" where
  "serial_send b s = emit (SerialSend b) s"

text \<open>The stores to the globals.\<close>

definition store_cycle_next :: "nat \<Rightarrow> state \<Rightarrow> state" where
  "store_cycle_next p s = emit (StoreCycleNext p) (s\<lparr>cycle_next := p\<rparr>)"

definition store_change_time :: "ushort \<Rightarrow> state \<Rightarrow> state" where
  "store_change_time v s = emit (StoreChangeTime v) (s\<lparr>change_time := v\<rparr>)"

definition store_wakeup :: "uchar \<Rightarrow> state \<Rightarrow> state" where
  "store_wakeup v s = emit (StoreWakeup v) (s\<lparr>wakeup := v\<rparr>)"

text \<open>
  \<open>*cycle_next\<close>: the read is defined when the pointer is at one of the table's
  elements, and is a failure otherwise.
\<close>

definition read_cycle_next :: "state \<Rightarrow> failure + (ushort \<times> state)" where
  "read_cycle_next s =
     (if cycle_next s < TABLE_SIZE cycle_table
      then Inr (cycle_table ! cycle_next s, emit (TableRead (cycle_next s)) s)
      else Inl OutOfBounds)"

subsection \<open>The interrupt handler\<close>

text \<open>
  \<open>output_compare_interrupt\<close>, statement by statement:
  \<^verbatim>\<open>
  _io_ports[M6811_TFLG1] |= M6811_OC4F;
  dt = *cycle_next;
  dt += change_time;
  set_output_compare_4 (dt);
  change_time = dt;
  cycle_next++;
  if (cycle_next >= &cycle_table[TABLE_SIZE (cycle_table)])
    cycle_next = cycle_table;
  wakeup = 1;
  \<close>
\<close>

definition acknowledge :: "ports_h \<Rightarrow> state \<Rightarrow> state" where
  "acknowledge hw s =
     io_write (M6811_TFLG1 hw) (io_ports s (M6811_TFLG1 hw) OR M6811_OC4F hw) s"

definition advance :: "state \<Rightarrow> state" where
  "advance s =
     (let s1 = store_cycle_next (cycle_next s + 1) s
      in if cycle_next s1 \<ge> TABLE_SIZE cycle_table then store_cycle_next 0 s1 else s1)"

definition output_compare_interrupt :: "ports_h \<Rightarrow> state \<Rightarrow> failure + state" where
  "output_compare_interrupt hw s =
     (let s1 = acknowledge hw s
      in case read_cycle_next s1 of
           Inl e \<Rightarrow> Inl e
         | Inr (dt0, s2) \<Rightarrow>
             let dt = dt0 + change_time s2;
                 s3 = set_output_compare_4 dt s2;
                 s4 = store_change_time dt s3;
                 s5 = advance s4
             in Inr (store_wakeup 1 s5))"

subsection \<open>Interrupts as the hardware raises them\<close>

text \<open>
  Between two invocations of the handler the hardware moves on by itself: the counter
  counts and the flag registers change.  A \<open>device\<close> is what the counter and the
  registers read when an interrupt is serviced, so it carries the latency of that
  interrupt.  \<open>interrupts\<close> services one interrupt for each element of its list.
\<close>

type_synonym device = "ushort \<times> (uchar \<Rightarrow> uchar)"

definition hardware :: "device \<Rightarrow> state \<Rightarrow> state" where
  "hardware d s = s\<lparr>tcnt := fst d, io_ports := snd d\<rparr>"

fun interrupts :: "ports_h \<Rightarrow> device list \<Rightarrow> state \<Rightarrow> failure + state" where
  "interrupts hw [] s = Inr s"
| "interrupts hw (d # ds) s =
     (case output_compare_interrupt hw (hardware d s) of
        Inl e \<Rightarrow> Inl e
      | Inr s' \<Rightarrow> interrupts hw ds s')"

text \<open>The compare values programmed in a log, oldest first.\<close>

fun compare_value :: "event \<Rightarrow> ushort list" where
  "compare_value (SetOutputCompare4 v) = [v]"
| "compare_value _ = []"

definition programmed :: "event list \<Rightarrow> ushort list" where
  "programmed tr = concat (map compare_value tr)"

subsection \<open>The main program\<close>

text \<open>
  The setup of \<open>main\<close>, up to \<open>unlock ()\<close>.  Interrupts are masked from
  \<open>lock ()\<close> on, so no handler runs in between.
  \<^verbatim>\<open>
  lock ();
  serial_init ();
  set_interrupt_handler (TIMER_OUTPUT4_VECTOR, output_compare_interrupt);
  cycle_next = cycle_table;
  _io_ports[M6811_TCTL1] = M6811_OL4;
  _io_ports[M6811_TMSK1] = M6811_OC4I;
  change_time = get_timer_counter () + 300;
  set_output_compare_4 (change_time);
  unlock ();
  \<close>
\<close>

definition main_setup :: "ports_h \<Rightarrow> state \<Rightarrow> state" where
  "main_setup hw s =
     (let s1 = emit Lock s;
          s2 = emit SerialInit s1;
          s3 = emit SetInterruptHandler s2;
          s4 = store_cycle_next 0 s3;
          s5 = io_write (M6811_TCTL1 hw) (M6811_OL4 hw) s4;
          s6 = io_write (M6811_TMSK1 hw) (M6811_OC4I hw) s5;
          s7 = store_change_time (get_timer_counter s6 + 300) s6;
          s8 = set_output_compare_4 (change_time s7) s7
      in emit Unlock s8)"

text \<open>
  After \<open>unlock ()\<close> an interrupt can be serviced between any two steps of \<open>main\<close>.
  The loop shares only \<open>wakeup\<close> with the handler, so what matters is which
  interrupts were serviced between two consecutive accesses of \<open>main\<close> to that flag.
  The environment is given as a \<open>schedule\<close>: its elements are consumed one at each access
  (the store \<open>wakeup = 0\<close> and each test \<open>wakeup == 0\<close>), and each element lists the
  interrupts serviced since the access before.  When the schedule is used up, no
  interrupt is raised any more.
\<close>

type_synonym schedule = "device list list"

definition pending :: "ports_h \<Rightarrow> schedule \<Rightarrow> state \<Rightarrow> failure + (schedule \<times> state)" where
  "pending hw env s =
     (case env of
        [] \<Rightarrow> Inr ([], s)
      | ds # env' \<Rightarrow>
          (case interrupts hw ds s of Inl e \<Rightarrow> Inl e | Inr s' \<Rightarrow> Inr (env', s')))"

text \<open>
  \<open>while (wakeup == 0) continue;\<close>  With no interrupt left and the flag at 0 the loop
  never ends.
\<close>

fun wait_wakeup :: "ports_h \<Rightarrow> schedule \<Rightarrow> state \<Rightarrow> failure + (schedule \<times> state)" where
  "wait_wakeup hw [] s = (if wakeup s = 0 then Inl SpinsForever else Inr ([], s))"
| "wait_wakeup hw (ds # env) s =
     (case interrupts hw ds s of
        Inl e \<Rightarrow> Inl e
      | Inr s' \<Rightarrow> if wakeup s' = 0 then wait_wakeup hw env s' else Inr (env, s'))"

text \<open>
  The activity on the serial line, with the locals \<open>c\<close> and \<open>i\<close>:
  \<^verbatim>\<open>
  c++;
  if (c == 1)
    serial_send ('\b');
  else if (c == 128)
    serial_send ("-\\|/"[(++i) & 3]);
  \<close>
\<close>

definition spinner :: "char list" where
  "spinner = [CHR ''-'', CHR 0x5C, CHR ''|'', CHR ''/'']"

definition heartbeat :: "uchar \<times> uchar \<Rightarrow> state \<Rightarrow> (uchar \<times> uchar) \<times> state" where
  "heartbeat ci s =
     (let c = fst ci + 1; i = snd ci
      in if c = 1 then ((c, i), serial_send (CHR 0x08) s)
         else if c = 128 then
           (let i' = i + 1 in ((c, i'), serial_send (spinner ! unat (i' AND 3)) s))
         else ((c, i), s))"

text \<open>One iteration of the \<open>for\<close> loop.\<close>

definition iteration ::
  "ports_h \<Rightarrow> schedule \<Rightarrow> uchar \<times> uchar \<Rightarrow> state \<Rightarrow> failure + (schedule \<times> (uchar \<times> uchar) \<times> state)" where
  "iteration hw env ci s =
     (case pending hw env s of
        Inl e \<Rightarrow> Inl e
      | Inr (env1, s1) \<Rightarrow>
          (case wait_wakeup hw env1 (store_wakeup 0 s1) of
             Inl e \<Rightarrow> Inl e
           | Inr (env2, s2) \<Rightarrow>
               (case heartbeat ci s2 of (ci', s3) \<Rightarrow> Inr (env2, ci', s3))))"

text \<open>\<open>for (j = 0; j < 1000; j++)\<close>, from the value of \<open>j\<close> on.\<close>

function main_loop ::
  "ports_h \<Rightarrow> ushort \<Rightarrow> uchar \<times> uchar \<Rightarrow> schedule \<Rightarrow> state \<Rightarrow> failure + state" where
  "main_loop hw j ci env s =
     (if j < 1000 then
        (case iteration hw env ci s of
           Inl e \<Rightarrow> Inl e
         | Inr (env', ci', s') \<Rightarrow> main_loop hw (j + 1) ci' env' s')
      else Inr s)"
  by pat_completeness auto
termination
proof (relation "measure (\<lambda>(hw, j, ci, env, s). 1000 - unat j)")
  show "wf (measure (\<lambda>(hw, j, ci, env, s). 1000 - unat j))"
    by simp
next
  fix hw :: ports_h and j :: ushort and ci :: "uchar \<times> uchar" and env :: schedule
    and s :: state and x2 x y xa ya
  assume "j < 1000"
  then have lt: "unat j < 1000"
    by (simp add: word_less_nat_alt)
  then have "unat (j + 1) = unat j + 1"
    by (simp add: unat_word_ariths)
  with lt show "((hw, j + 1, xa, x, ya), (hw, j, ci, env, s))
      \<in> measure (\<lambda>(hw, j, ci, env, s). 1000 - unat j)"
    by simp
qed

declare main_loop.simps [simp del]

text \<open>\<open>main\<close>: the setup, the loop, \<open>return 0\<close>.\<close>

definition main :: "ports_h \<Rightarrow> schedule \<Rightarrow> state \<Rightarrow> failure + (int \<times> state)" where
  "main hw env s =
     (case main_loop hw 0 (0, 0) env (main_setup hw s) of
        Inl e \<Rightarrow> Inl e
      | Inr s' \<Rightarrow> Inr (0, s'))"

subsection \<open>Reference functions and concrete inputs\<close>

text \<open>
  The compare values that \<open>n\<close> interrupts program, written as a function of the
  Change Time \<open>ct\<close> and the cursor \<open>p\<close> at the first of them, and of nothing else.
\<close>

fun targets :: "ushort \<Rightarrow> nat \<Rightarrow> nat \<Rightarrow> ushort list" where
  "targets ct p 0 = []"
| "targets ct p (Suc n) =
     (ct + cycle_table ! p) # targets (ct + cycle_table ! p) ((p + 1) mod TABLE_SIZE cycle_table) n"

text \<open>The compare values programmed between two states of one run.\<close>

definition programmed_since :: "state \<Rightarrow> state \<Rightarrow> ushort list" where
  "programmed_since s s' = drop (length (programmed (trace s))) (programmed (trace s'))"

text \<open>The differences between consecutive compare values, in 16-bit arithmetic.\<close>

fun deltas :: "ushort list \<Rightarrow> ushort list" where
  "deltas (a # b # xs) = (b - a) # deltas (b # xs)"
| "deltas _ = []"

text \<open>
  Concrete inputs for the examples: the register map of the 68HC11 (control and flag
  registers at 0x20, 0x22 and 0x23, the OC4 bits), and a machine whose counter reads
  \<open>t\<close>, with nothing logged yet.
\<close>

definition hc11 :: ports_h where
  "hc11 = \<lparr>M6811_TCTL1 = 0x20, M6811_TMSK1 = 0x22, M6811_TFLG1 = 0x23,
           M6811_OL4 = 0x04, M6811_OC4I = 0x10, M6811_OC4F = 0x10\<rparr>"

definition power_on :: "ushort \<Rightarrow> state" where
  "power_on t = \<lparr>cycle_next = 0, wakeup = 0, change_time = 0, tcnt = t,
                 io_ports = (\<lambda>a. 0), trace = []\<rparr>"

text \<open>
  What an interrupt finds when it is serviced at counter value \<open>t\<close> with every device
  register reading \<open>f\<close>.
\<close>

definition serviced_at :: "ushort \<Rightarrow> uchar \<Rightarrow> device" where
  "serviced_at t f = (t, \<lambda>a. f)"

text \<open>The bytes sent on the serial line in a log, and the number of \<open>wakeup = 0\<close> stores.\<close>

fun serial_byte :: "event \<Rightarrow> char list" where
  "serial_byte (SerialSend b) = [b]"
| "serial_byte _ = []"

definition sent :: "event list \<Rightarrow> char list" where
  "sent tr = concat (map serial_byte tr)"

definition clears :: "event list \<Rightarrow> nat" where
  "clears tr = count_list tr (StoreWakeup 0)"

text \<open>The number of \<open>wakeup = 1\<close> stores in a log: the handler's runs to completion.\<close>

definition wakes :: "event list \<Rightarrow> nat" where
  "wakes tr = count_list tr (StoreWakeup 1)"

text \<open>
  The locals \<open>(c, i)\<close> after one more iteration and the bytes that iteration sends, and
  the bytes that \<open>n\<close> iterations send.
\<close>

definition next_ci :: "uchar \<times> uchar \<Rightarrow> uchar \<times> uchar" where
  "next_ci ci = (fst ci + 1, if fst ci + 1 \<noteq> 1 \<and> fst ci + 1 = 128 then snd ci + 1 else snd ci)"

definition beat :: "uchar \<times> uchar \<Rightarrow> char list" where
  "beat ci =
     (if fst ci + 1 = 1 then [CHR 0x08]
      else if fst ci + 1 = 128 then [spinner ! unat ((snd ci + 1) AND 3)]
      else [])"

fun beats :: "nat \<Rightarrow> uchar \<times> uchar \<Rightarrow> char list" where
  "beats 0 ci = []"
| "beats (Suc n) ci = beat ci @ beats n (next_ci ci)"

text \<open>
  Each of the next \<open>n\<close> waits ends: after the element consumed at the store
  \<open>wakeup = 0\<close>, the schedule has an element with an interrupt in it, and so on from
  the element after that one.
\<close>

fun waits_end :: "nat \<Rightarrow> schedule \<Rightarrow> bool" where
  "waits_end 0 env = True"
| "waits_end (Suc n) env =
     (case dropWhile (\<lambda>ds. ds = []) (tl env) of
        [] \<Rightarrow> False
      | ds # env' \<Rightarrow> waits_end n env')"

text \<open>
  Two schedules: one interrupt in the first test of the flag of one iteration; and the
  same for 1000 iterations.
\<close>

definition one_wait :: schedule where
  "one_wait = [[], [serviced_at 0 16]]"


section \<open>Properties\<close>

subsection \<open>Basic facts\<close>

lemmas handler_defs = output_compare_interrupt_def acknowledge_def io_write_def emit_def
  serviced_at_def
  read_cycle_next_def set_output_compare_4_def store_change_time_def advance_def
  store_cycle_next_def store_wakeup_def hardware_def TABLE_SIZE_def cycle_table_def
  US_TO_CYCLE_def Let_def

lemma table_size: "TABLE_SIZE cycle_table = 12"
  by (simp add: TABLE_SIZE_def cycle_table_def)

lemma programmed_Nil [simp]: "programmed [] = []"
  by (simp add: programmed_def)

lemma programmed_append: "programmed (a @ b) = programmed a @ programmed b"
  by (simp add: programmed_def)

text \<open>The handler in closed form, when the cursor is at an element of the table.\<close>

lemma handler_in_bounds:
  assumes "cycle_next s < TABLE_SIZE cycle_table"
  shows "output_compare_interrupt hw s =
     Inr (s\<lparr>cycle_next := (if cycle_next s + 1 \<ge> TABLE_SIZE cycle_table then 0 else cycle_next s + 1),
            wakeup := 1,
            change_time := cycle_table ! cycle_next s + change_time s,
            trace := trace s @
              [IoWrite (M6811_TFLG1 hw) (io_ports s (M6811_TFLG1 hw) OR M6811_OC4F hw),
               TableRead (cycle_next s),
               SetOutputCompare4 (cycle_table ! cycle_next s + change_time s),
               StoreChangeTime (cycle_table ! cycle_next s + change_time s),
               StoreCycleNext (cycle_next s + 1)] @
              (if cycle_next s + 1 \<ge> TABLE_SIZE cycle_table then [StoreCycleNext 0] else []) @
              [StoreWakeup 1]\<rparr>)"
  using assms
  by (simp add: output_compare_interrupt_def acknowledge_def io_write_def emit_def
      read_cycle_next_def set_output_compare_4_def store_change_time_def advance_def
      store_cycle_next_def store_wakeup_def Let_def)

lemma handler_out_of_bounds:
  "\<not> cycle_next s < TABLE_SIZE cycle_table \<Longrightarrow> output_compare_interrupt hw s = Inl OutOfBounds"
  by (simp add: output_compare_interrupt_def acknowledge_def io_write_def emit_def
      read_cycle_next_def Let_def)

text \<open>What one invocation leaves, as far as the timing goes.\<close>

lemma handler_step:
  assumes "cycle_next s < TABLE_SIZE cycle_table"
  shows "\<exists>s'. output_compare_interrupt hw s = Inr s'
      \<and> cycle_next s' = (cycle_next s + 1) mod TABLE_SIZE cycle_table
      \<and> change_time s' = change_time s + cycle_table ! cycle_next s
      \<and> wakeup s' = 1
      \<and> programmed (trace s') = programmed (trace s) @ [change_time s + cycle_table ! cycle_next s]"
proof -
  have m: "(cycle_next s + 1) mod TABLE_SIZE cycle_table =
      (if cycle_next s + 1 \<ge> TABLE_SIZE cycle_table then 0 else cycle_next s + 1)"
    using assms by (cases "cycle_next s = 11") (auto simp: table_size)
  show ?thesis
    unfolding handler_in_bounds [OF assms] m
    by (simp add: programmed_def add.commute)
qed

lemma hardware_timing [simp]:
  "cycle_next (hardware d s) = cycle_next s"
  "change_time (hardware d s) = change_time s"
  "trace (hardware d s) = trace s"
  "wakeup (hardware d s) = wakeup s"
  by (simp_all add: hardware_def)

text \<open>A run of interrupts, by induction on the interrupts serviced.\<close>

lemma interrupts_run:
  assumes "cycle_next s < TABLE_SIZE cycle_table"
  shows "\<exists>s'. interrupts hw ds s = Inr s'
      \<and> cycle_next s' = (cycle_next s + length ds) mod TABLE_SIZE cycle_table
      \<and> programmed (trace s') =
          programmed (trace s) @ targets (change_time s) (cycle_next s) (length ds)
      \<and> change_time s' = last (change_time s # targets (change_time s) (cycle_next s) (length ds))"
  using assms
proof (induction ds arbitrary: s)
  case Nil
  then show ?case by (simp add: table_size)
next
  case (Cons d ds)
  from Cons.prems have "cycle_next (hardware d s) < TABLE_SIZE cycle_table"
    by simp
  from handler_step [OF this, of hw] obtain s1 where
    s1: "output_compare_interrupt hw (hardware d s) = Inr s1"
      "cycle_next s1 = (cycle_next s + 1) mod TABLE_SIZE cycle_table"
      "change_time s1 = change_time s + cycle_table ! cycle_next s"
      "programmed (trace s1) = programmed (trace s) @ [change_time s + cycle_table ! cycle_next s]"
    by auto
  have "cycle_next s1 < TABLE_SIZE cycle_table"
    by (simp add: s1 table_size)
  from Cons.IH [OF this] obtain s' where
    s': "interrupts hw ds s1 = Inr s'"
      "cycle_next s' = (cycle_next s1 + length ds) mod TABLE_SIZE cycle_table"
      "programmed (trace s') =
          programmed (trace s1) @ targets (change_time s1) (cycle_next s1) (length ds)"
      "change_time s' = last (change_time s1 # targets (change_time s1) (cycle_next s1) (length ds))"
    by auto
  have "cycle_next s' = (cycle_next s + length (d # ds)) mod TABLE_SIZE cycle_table"
    by (simp add: s' s1 mod_simps)
  then show ?case
    using s1 s' by simp
qed

lemma targets_length [simp]: "length (targets ct p n) = n"
  by (induction n arbitrary: ct p) simp_all

lemma targets_nth:
  "k < n \<Longrightarrow> p < TABLE_SIZE cycle_table \<Longrightarrow> (ct # targets ct p n) ! (k + 1) =
     (ct # targets ct p n) ! k + cycle_table ! ((p + k) mod TABLE_SIZE cycle_table)"
proof (induction n arbitrary: ct p k)
  case 0
  then show ?case by simp
next
  case (Suc n)
  let ?v = "ct + cycle_table ! p"
  let ?q = "(p + 1) mod TABLE_SIZE cycle_table"
  show ?case
  proof (cases k)
    case 0
    then show ?thesis using Suc.prems by simp
  next
    case (Suc k')
    with Suc.prems have "k' < n" by simp
    moreover have "?q < TABLE_SIZE cycle_table"
      by (simp add: table_size)
    ultimately have "(?v # targets ?v ?q n) ! (k' + 1) =
      (?v # targets ?v ?q n) ! k' + cycle_table ! ((?q + k') mod TABLE_SIZE cycle_table)"
      by (rule Suc.IH)
    then show ?thesis
      by (simp add: Suc mod_simps)
  qed
qed

lemma main_setup_eq:
  "main_setup hw s =
     s\<lparr>cycle_next := 0, change_time := tcnt s + 300,
       trace := trace s @
         [Lock, SerialInit, SetInterruptHandler, StoreCycleNext 0,
          IoWrite (M6811_TCTL1 hw) (M6811_OL4 hw), IoWrite (M6811_TMSK1 hw) (M6811_OC4I hw),
          StoreChangeTime (tcnt s + 300), SetOutputCompare4 (tcnt s + 300), Unlock]\<rparr>"
  by (simp add: main_setup_def emit_def store_cycle_next_def io_write_def
      store_change_time_def get_timer_counter_def set_output_compare_4_def Let_def)

lemma main_setup_timing:
  "cycle_next (main_setup hw s) = 0"
  "change_time (main_setup hw s) = tcnt s + 300"
  "programmed (trace (main_setup hw s)) = programmed (trace s) @ [tcnt s + 300]"
  by (simp_all add: main_setup_eq programmed_def)

subsection \<open>No drift\<close>

text \<open>
  Claim C1.  Start the program with an empty log and let any \<open>N\<close> interrupts be
  serviced, each at whatever counter value and flag contents (\<open>ds\<close>).  Number the
  compare values written to OC4 from 0, the first being the one \<open>main\<close> arms; the
  \<open>k\<close>-th interrupt then writes number \<open>k\<close>.  Every run of the handler succeeds,
  and for each \<open>k < N\<close> value \<open>k + 1\<close> is value \<open>k\<close> plus \<open>cycle_table[k mod len]\<close>
  in 16-bit arithmetic, that is modulo \<open>2 ^ 16\<close> on the unsigned readings.  The
  service times do not occur in the equation.
\<close>

theorem no_drift:
  assumes "trace s = []" and "k < length ds"
  shows "\<exists>s'. interrupts hw ds (main_setup hw s) = Inr s'
      \<and> length (programmed (trace s')) = length ds + 1
      \<and> programmed (trace s') ! (k + 1) =
          programmed (trace s') ! k + cycle_table ! (k mod TABLE_SIZE cycle_table)
      \<and> unat (programmed (trace s') ! (k + 1)) =
          (unat (programmed (trace s') ! k) + unat (cycle_table ! (k mod TABLE_SIZE cycle_table)))
            mod 2 ^ 16"
proof -
  let ?ct = "tcnt s + 300"
  have b: "cycle_next (main_setup hw s) < TABLE_SIZE cycle_table"
    by (simp add: main_setup_timing table_size)
  from interrupts_run [OF b, of hw ds] obtain s' where
    r: "interrupts hw ds (main_setup hw s) = Inr s'"
    and p: "programmed (trace s') = ?ct # targets ?ct 0 (length ds)"
    by (auto simp: main_setup_timing assms(1))
  have "0 < TABLE_SIZE cycle_table"
    by (simp add: table_size)
  with assms(2) have n: "programmed (trace s') ! (k + 1) =
      programmed (trace s') ! k + cycle_table ! (k mod TABLE_SIZE cycle_table)"
    unfolding p using targets_nth [of k "length ds" 0 ?ct] by simp
  have "unat (programmed (trace s') ! (k + 1)) =
      (unat (programmed (trace s') ! k) + unat (cycle_table ! (k mod TABLE_SIZE cycle_table)))
        mod 2 ^ 16"
    unfolding n by (simp add: unat_word_ariths)
  with r p n show ?thesis
    by simp
qed

text \<open>
  The theorem at a start with the counter at 65000 and two interrupts: the values are
  65300, then 764 after the wrap, then 1764.
\<close>

theorem no_drift_witness:
  "trace (power_on 65000) = [] \<and> (1::nat) < length [serviced_at 65100 16, serviced_at 500 16]
   \<and> (\<exists>s'. interrupts hc11 [serviced_at 65100 16, serviced_at 500 16] (main_setup hc11 (power_on 65000)) = Inr s'
      \<and> programmed (trace s') = [65300, 764, 1764]
      \<and> programmed (trace s') ! (1 + 1) =
          programmed (trace s') ! 1 + cycle_table ! (1 mod TABLE_SIZE cycle_table))"
proof -
  have t: "trace (power_on 65000) = []"
    by (simp add: power_on_def)
  have l: "(1::nat) < length [serviced_at 65100 16, serviced_at 500 16]"
    by simp
  from no_drift [OF t l, of hc11] obtain s' where
    r: "interrupts hc11 [serviced_at 65100 16, serviced_at 500 16] (main_setup hc11 (power_on 65000)) = Inr s'"
    and n: "programmed (trace s') ! (1 + 1) =
          programmed (trace s') ! 1 + cycle_table ! (1 mod TABLE_SIZE cycle_table)"
    by blast
  have v: "programmed (trace s') = [65300, 764, 1764]"
    using r
    by (auto simp add: main_setup_eq power_on_def hc11_def handler_defs programmed_def)
  from t l r n v show ?thesis
    by blast
qed

subsection \<open>The cursor\<close>

text \<open>
  Claim C2.  \<open>main\<close> sets the cursor to the first element of the table.  After any
  \<open>M\<close> invocations of the handler from there (the list \<open>ds\<close>, of any length), every
  one of them has succeeded and the cursor is at position \<open>M mod len\<close>, where
  \<open>len = 12\<close>.
\<close>

theorem cursor_cyclic:
  "\<exists>s'. interrupts hw ds (main_setup hw s) = Inr s'
      \<and> cycle_next s' = length ds mod TABLE_SIZE cycle_table
      \<and> TABLE_SIZE cycle_table = 12"
proof -
  have "cycle_next (main_setup hw s) < TABLE_SIZE cycle_table"
    by (simp add: main_setup_timing table_size)
  from interrupts_run [OF this, of hw ds] show ?thesis
    by (auto simp: main_setup_timing table_size)
qed

subsection \<open>Independence of the latency\<close>

lemma handler_ignores_counter:
  "output_compare_interrupt hw (s\<lparr>tcnt := t\<rparr>) =
     map_sum id (\<lambda>s'. s'\<lparr>tcnt := t\<rparr>) (output_compare_interrupt hw s)"
  by (cases "cycle_next s < TABLE_SIZE cycle_table")
     (simp_all add: handler_in_bounds handler_out_of_bounds)

text \<open>
  Claim C3.  Take two runs that start with the same Change Time and the same cursor
  (at an element of the table) and service the same number of interrupts, each at its
  own counter values and flag contents (\<open>ds1\<close>, \<open>ds2\<close>); the two starts may differ in
  everything else.  Both runs succeed and program the same sequence of compare values,
  which is \<open>targets\<close> of the initial Change Time and cursor; they end with the same
  Change Time and cursor.  And the handler does not read the counter: run on a state
  with another counter value, it gives the same result but for that value.
\<close>

theorem latency_independent:
  assumes "change_time s1 = change_time s2" and "cycle_next s1 = cycle_next s2"
    and "length ds1 = length ds2" and "cycle_next s1 < TABLE_SIZE cycle_table"
  shows "\<exists>t1 t2. interrupts hw ds1 s1 = Inr t1 \<and> interrupts hw ds2 s2 = Inr t2
      \<and> programmed_since s1 t1 = programmed_since s2 t2
      \<and> programmed_since s1 t1 = targets (change_time s1) (cycle_next s1) (length ds1)
      \<and> change_time t1 = change_time t2 \<and> cycle_next t1 = cycle_next t2
      \<and> output_compare_interrupt hw (s1\<lparr>tcnt := t\<rparr>) =
           map_sum id (\<lambda>s'. s'\<lparr>tcnt := t\<rparr>) (output_compare_interrupt hw s1)"
proof -
  from interrupts_run [OF assms(4), of hw ds1] obtain t1 where
    t1: "interrupts hw ds1 s1 = Inr t1"
      "cycle_next t1 = (cycle_next s1 + length ds1) mod TABLE_SIZE cycle_table"
      "programmed (trace t1) =
          programmed (trace s1) @ targets (change_time s1) (cycle_next s1) (length ds1)"
      "change_time t1 = last (change_time s1 # targets (change_time s1) (cycle_next s1) (length ds1))"
    by blast
  from assms have "cycle_next s2 < TABLE_SIZE cycle_table"
    by simp
  from interrupts_run [OF this, of hw ds2] obtain t2 where
    t2: "interrupts hw ds2 s2 = Inr t2"
      "cycle_next t2 = (cycle_next s2 + length ds2) mod TABLE_SIZE cycle_table"
      "programmed (trace t2) =
          programmed (trace s2) @ targets (change_time s2) (cycle_next s2) (length ds2)"
      "change_time t2 = last (change_time s2 # targets (change_time s2) (cycle_next s2) (length ds2))"
    by blast
  have "programmed_since s1 t1 = targets (change_time s1) (cycle_next s1) (length ds1)"
    by (simp add: programmed_since_def t1)
  moreover have "programmed_since s2 t2 = targets (change_time s1) (cycle_next s1) (length ds1)"
    by (simp add: programmed_since_def t2 assms)
  moreover have "change_time t1 = change_time t2" "cycle_next t1 = cycle_next t2"
    by (simp_all add: t1 t2 assms)
  ultimately show ?thesis
    using t1(1) t2(1) handler_ignores_counter by simp
qed

text \<open>
  Two runs of two interrupts: one serviced at counter values 10 and 1200, the other at
  77 and 1001, with other flags pending and the wakeup flag still set.
\<close>

theorem latency_independent_witness:
  "change_time (power_on 5) = change_time ((power_on 900)\<lparr>wakeup := 1\<rparr>)
   \<and> cycle_next (power_on 5) = cycle_next ((power_on 900)\<lparr>wakeup := 1\<rparr>)
   \<and> length [serviced_at 10 16, serviced_at 1200 16] = length [serviced_at 77 255, serviced_at 1001 16]
   \<and> cycle_next (power_on 5) < TABLE_SIZE cycle_table
   \<and> (\<exists>t1 t2. interrupts hc11 [serviced_at 10 16, serviced_at 1200 16] (power_on 5) = Inr t1
        \<and> interrupts hc11 [serviced_at 77 255, serviced_at 1001 16] ((power_on 900)\<lparr>wakeup := 1\<rparr>) = Inr t2
        \<and> programmed_since (power_on 5) t1 = [1000, 2000]
        \<and> programmed_since ((power_on 900)\<lparr>wakeup := 1\<rparr>) t2 = [1000, 2000])"
proof -
  have a: "change_time (power_on 5) = change_time ((power_on 900)\<lparr>wakeup := 1\<rparr>)"
    and b: "cycle_next (power_on 5) = cycle_next ((power_on 900)\<lparr>wakeup := 1\<rparr>)"
    and d: "cycle_next (power_on 5) < TABLE_SIZE cycle_table"
    by (simp_all add: power_on_def table_size)
  have c: "length [serviced_at 10 16, serviced_at 1200 16] = length [serviced_at 77 255, serviced_at 1001 16]"
    by simp
  from latency_independent [OF a b c d, of hc11] obtain t1 t2 where
    r: "interrupts hc11 [serviced_at 10 16, serviced_at 1200 16] (power_on 5) = Inr t1"
       "interrupts hc11 [serviced_at 77 255, serviced_at 1001 16] ((power_on 900)\<lparr>wakeup := 1\<rparr>) = Inr t2"
    and e: "programmed_since (power_on 5) t1 = programmed_since ((power_on 900)\<lparr>wakeup := 1\<rparr>) t2"
    by blast
  have "programmed_since (power_on 5) t1 = [1000, 2000]"
    using r(1) by (auto simp add: programmed_since_def power_on_def hc11_def handler_defs programmed_def)
  with a b c d r e show ?thesis
    by simp
qed

subsection \<open>The table in ticks\<close>

lemma cycle_table_ticks:
  "map unat cycle_table = [1000, 1000, 1000, 2000, 2000, 10000, 200, 1000, 10000, 2000, 200, 200]"
  by (simp add: cycle_table_def US_TO_CYCLE_def)

lemma deltas_targets:
  "p < TABLE_SIZE cycle_table \<Longrightarrow>
   deltas (ct # targets ct p n) = map (\<lambda>k. cycle_table ! ((p + k) mod TABLE_SIZE cycle_table)) [0..<n]"
proof (induction n arbitrary: ct p)
  case 0
  then show ?case by simp
next
  case (Suc n)
  let ?v = "ct + cycle_table ! p"
  let ?q = "(p + 1) mod TABLE_SIZE cycle_table"
  have "?q < TABLE_SIZE cycle_table"
    by (simp add: table_size)
  then have "deltas (?v # targets ?v ?q n) =
      map (\<lambda>k. cycle_table ! ((?q + k) mod TABLE_SIZE cycle_table)) [0..<n]"
    by (rule Suc.IH)
  then have "deltas (ct # targets ct p (Suc n)) =
      cycle_table ! p # map (\<lambda>k. cycle_table ! ((p + Suc k) mod TABLE_SIZE cycle_table)) [0..<n]"
    by (simp add: mod_simps)
  also have "\<dots> = map (\<lambda>k. cycle_table ! ((p + k) mod TABLE_SIZE cycle_table)) [0..<Suc n]"
    using Suc.prems by (simp add: map_upt_Suc del: upt_Suc)
  finally show ?case .
qed

lemma thirteen_deltas:
  "map (\<lambda>k. unat (cycle_table ! ((0 + k) mod TABLE_SIZE cycle_table))) [0..<13] =
     [1000, 1000, 1000, 2000, 2000, 10000, 200, 1000, 10000, 2000, 200, 200, 1000]"
  by code_simp

text \<open>
  Claim C4.  The entries of the table are twice the microsecond values, without loss in
  the conversion to \<open>unsigned short\<close>: 1000, 1000, 1000, 2000, 2000, 10000, 200, 1000,
  10000, 2000, 200, 200 ticks.  Start the program with an empty log and service 13
  interrupts: after the first 12 the cursor is back at the first element, and the 13
  differences between consecutive compare values are the 12 entries in order followed
  by the first entry, 1000, again.
\<close>

theorem table_deltas:
  assumes "trace s = []" and "length ds = 13"
  shows "map unat cycle_table =
        map (\<lambda>us. 2 * us) [500, 500, 500, 1000, 1000, 5000, 100, 500, 5000, 1000, 100, 100]
      \<and> map unat cycle_table =
        [1000, 1000, 1000, 2000, 2000, 10000, 200, 1000, 10000, 2000, 200, 200]
      \<and> (\<exists>s12 s13. interrupts hw (take 12 ds) (main_setup hw s) = Inr s12
          \<and> cycle_next s12 = 0
          \<and> interrupts hw ds (main_setup hw s) = Inr s13
          \<and> map unat (deltas (programmed (trace s13))) =
              [1000, 1000, 1000, 2000, 2000, 10000, 200, 1000, 10000, 2000, 200, 200, 1000])"
proof -
  have b: "cycle_next (main_setup hw s) < TABLE_SIZE cycle_table"
    by (simp add: main_setup_timing table_size)
  from interrupts_run [OF b, of hw "take 12 ds"] obtain s12 where
    s12: "interrupts hw (take 12 ds) (main_setup hw s) = Inr s12" "cycle_next s12 = 0"
    by (auto simp: main_setup_timing table_size assms(2))
  from interrupts_run [OF b, of hw ds] obtain s13 where
    s13: "interrupts hw ds (main_setup hw s) = Inr s13"
    and p: "programmed (trace s13) = (tcnt s + 300) # targets (tcnt s + 300) 0 13"
    by (auto simp: main_setup_timing assms)
  have "map unat (deltas (programmed (trace s13))) =
      [1000, 1000, 1000, 2000, 2000, 10000, 200, 1000, 10000, 2000, 200, 200, 1000]"
    unfolding p using deltas_targets [of 0 "tcnt s + 300" 13] thirteen_deltas
    by (simp add: table_size comp_def)
  with s12 s13 show ?thesis
    by (simp add: cycle_table_ticks)
qed

text \<open>Thirteen interrupts after a start with the counter at 60000.\<close>

theorem table_deltas_witness:
  "trace (power_on 60000) = [] \<and> length (replicate 13 (serviced_at 0 16)) = 13
   \<and> (\<exists>s12 s13.
        interrupts hc11 (take 12 (replicate 13 (serviced_at 0 16))) (main_setup hc11 (power_on 60000)) = Inr s12
        \<and> cycle_next s12 = 0
        \<and> interrupts hc11 (replicate 13 (serviced_at 0 16)) (main_setup hc11 (power_on 60000)) = Inr s13
        \<and> map unat (deltas (programmed (trace s13))) =
            [1000, 1000, 1000, 2000, 2000, 10000, 200, 1000, 10000, 2000, 200, 200, 1000])"
proof -
  have t: "trace (power_on 60000) = []"
    by (simp add: power_on_def)
  have l: "length (replicate 13 (serviced_at 0 16)) = 13"
    by simp
  from table_deltas [OF t l, of hc11] show ?thesis
    using t l by blast
qed

subsection \<open>The order of the handler's steps\<close>

text \<open>
  Claim C5.  Invoked with the cursor at an element of the table, the handler succeeds
  and adds to the log exactly these effects, in this order: the store to \<open>TFLG1\<close> of
  its contents with the \<open>OC4F\<close> bit set (the acknowledgement of OC4), the read of the
  duration at the cursor, the write of old Change Time plus duration to the compare
  register and its store to \<open>change_time\<close>, the store of the advanced cursor, followed by
  the store of the table's start when the cursor has passed the last entry, and last
  the store of 1 to the wakeup flag.  The flag is stored once, after the compare
  register was written, and is 1 on return.
\<close>

theorem handler_order:
  assumes "cycle_next s < TABLE_SIZE cycle_table"
  shows "\<exists>s'. output_compare_interrupt hw s = Inr s'
      \<and> trace s' = trace s @
          [IoWrite (M6811_TFLG1 hw) (io_ports s (M6811_TFLG1 hw) OR M6811_OC4F hw),
           TableRead (cycle_next s),
           SetOutputCompare4 (change_time s + cycle_table ! cycle_next s),
           StoreChangeTime (change_time s + cycle_table ! cycle_next s),
           StoreCycleNext (cycle_next s + 1)] @
          (if cycle_next s + 1 \<ge> TABLE_SIZE cycle_table then [StoreCycleNext 0] else []) @
          [StoreWakeup 1]
      \<and> wakeup s' = 1
      \<and> count_list (drop (length (trace s)) (trace s')) (StoreWakeup 1) = 1"
  unfolding handler_in_bounds [OF assms]
  by (simp add: add.commute)

text \<open>The handler at the last entry of the table, with Change Time 65500.\<close>

theorem handler_order_witness:
  "cycle_next ((power_on 0)\<lparr>cycle_next := 11, change_time := 65500\<rparr>) < TABLE_SIZE cycle_table
   \<and> (\<exists>s'. output_compare_interrupt hc11 ((power_on 0)\<lparr>cycle_next := 11, change_time := 65500\<rparr>) = Inr s'
        \<and> trace s' = [IoWrite 0x23 0x10, TableRead 11, SetOutputCompare4 164, StoreChangeTime 164,
                      StoreCycleNext 12, StoreCycleNext 0, StoreWakeup 1]
        \<and> wakeup s' = 1)"
proof -
  let ?s = "(power_on 0)\<lparr>cycle_next := 11, change_time := 65500\<rparr>"
  have b: "cycle_next ?s < TABLE_SIZE cycle_table"
    by (simp add: power_on_def table_size)
  from handler_order [OF b, of hc11] obtain s' where
    r: "output_compare_interrupt hc11 ?s = Inr s'" and w: "wakeup s' = 1"
    and t: "trace s' = trace ?s @
          [IoWrite (M6811_TFLG1 hc11) (io_ports ?s (M6811_TFLG1 hc11) OR M6811_OC4F hc11),
           TableRead (cycle_next ?s),
           SetOutputCompare4 (change_time ?s + cycle_table ! cycle_next ?s),
           StoreChangeTime (change_time ?s + cycle_table ! cycle_next ?s),
           StoreCycleNext (cycle_next ?s + 1)] @
          (if cycle_next ?s + 1 \<ge> TABLE_SIZE cycle_table then [StoreCycleNext 0] else []) @
          [StoreWakeup 1]"
    by blast
  have "trace s' = [IoWrite 0x23 0x10, TableRead 11, SetOutputCompare4 164, StoreChangeTime 164,
                      StoreCycleNext 12, StoreCycleNext 0, StoreWakeup 1]"
    unfolding t by (simp add: power_on_def hc11_def table_size) (simp add: cycle_table_def US_TO_CYCLE_def)
  with b r w show ?thesis
    by blast
qed

subsection \<open>The first compare target\<close>

text \<open>
  Claim C6.  After the setup of \<open>main\<close> the Change Time is the value that the read of
  the counter returned plus 300, the sum taken in the 16 bits of the counter, and the
  setup writes that same value to the compare register: it is the only compare value
  the setup adds to the log, and the first one in the log of a program that starts
  with an empty log.
\<close>

theorem startup_target:
  "change_time (main_setup hw s) = get_timer_counter s + 300
   \<and> unat (change_time (main_setup hw s)) = (unat (get_timer_counter s) + 300) mod 2 ^ 16
   \<and> programmed (trace (main_setup hw s)) = programmed (trace s) @ [change_time (main_setup hw s)]
   \<and> programmed (trace (main_setup hw (s\<lparr>trace := []\<rparr>))) = [get_timer_counter s + 300]"
  by (simp add: main_setup_timing get_timer_counter_def unat_word_ariths)

subsection \<open>The minimum duration\<close>

lemma undersized_flags: "undersized [1000, 99, 100, 20] = [99, 20]"
  by (simp add: undersized_def min_cycles_def)

text \<open>
  Claim C8.  The validation pass over \<open>cycle_table\<close> with the documented threshold of
  100 cycles flags no entry; the smallest entry is 200 ticks.
\<close>

theorem table_above_minimum:
  "undersized cycle_table = [] \<and> min_cycles = 100 \<and> Min (set cycle_table) = 200"
  by (simp add: undersized_def min_cycles_def cycle_table_def US_TO_CYCLE_def)

subsection \<open>The driver loop\<close>

lemma sent_append [simp]: "sent (a @ b) = sent a @ sent b"
  by (simp add: sent_def)

lemma clears_append [simp]: "clears (a @ b) = clears a + clears b"
  by (simp add: clears_def)

lemma wakes_append [simp]: "wakes (a @ b) = wakes a + wakes b"
  by (simp add: wakes_def)

lemma wakes_beat [simp]: "wakes (map SerialSend bs) = 0"
  by (induction bs) (simp_all add: wakes_def)

lemma heartbeat_eq:
  "heartbeat ci s = (next_ci ci, s\<lparr>trace := trace s @ map SerialSend (beat ci)\<rparr>)"
  by (simp add: heartbeat_def next_ci_def beat_def serial_send_def emit_def Let_def)

lemma sent_beat [simp]: "sent (map SerialSend bs) = bs"
  by (induction bs) (simp_all add: sent_def)

lemma clears_beat [simp]: "clears (map SerialSend bs) = 0"
  by (induction bs) (simp_all add: clears_def)

lemma handler_quiet:
  assumes "cycle_next s < TABLE_SIZE cycle_table"
  shows "\<exists>s'. output_compare_interrupt hw s = Inr s'
      \<and> cycle_next s' < TABLE_SIZE cycle_table \<and> wakeup s' = 1
      \<and> sent (trace s') = sent (trace s) \<and> clears (trace s') = clears (trace s)
      \<and> wakes (trace s') = wakes (trace s) + 1"
  unfolding handler_in_bounds [OF assms]
  by (simp add: table_size sent_def clears_def wakes_def)

lemma interrupts_quiet:
  assumes "cycle_next s < TABLE_SIZE cycle_table"
  shows "\<exists>s'. interrupts hw ds s = Inr s'
      \<and> cycle_next s' < TABLE_SIZE cycle_table
      \<and> (ds \<noteq> [] \<longrightarrow> wakeup s' = 1) \<and> (ds = [] \<longrightarrow> s' = s)
      \<and> sent (trace s') = sent (trace s) \<and> clears (trace s') = clears (trace s)
      \<and> wakes (trace s') = wakes (trace s) + length ds"
  using assms
proof (induction ds arbitrary: s)
  case Nil
  then show ?case by simp
next
  case (Cons d ds)
  from Cons.prems have "cycle_next (hardware d s) < TABLE_SIZE cycle_table"
    by simp
  from handler_quiet [OF this, of hw] obtain s1 where
    s1: "output_compare_interrupt hw (hardware d s) = Inr s1"
      "cycle_next s1 < TABLE_SIZE cycle_table" "wakeup s1 = 1"
      "sent (trace s1) = sent (trace s)" "clears (trace s1) = clears (trace s)"
      "wakes (trace s1) = wakes (trace s) + 1"
    by auto
  from Cons.IH [OF s1(2)] obtain s' where
    s': "interrupts hw ds s1 = Inr s'" "cycle_next s' < TABLE_SIZE cycle_table"
      "ds \<noteq> [] \<longrightarrow> wakeup s' = 1" "ds = [] \<longrightarrow> s' = s1"
      "sent (trace s') = sent (trace s1)" "clears (trace s') = clears (trace s1)"
      "wakes (trace s') = wakes (trace s1) + length ds"
    by auto
  have "wakeup s' = 1"
    using s'(3,4) s1(3) by (cases "ds = []") simp_all
  with s1 s' show ?case
    by simp
qed

lemma wait_wakeup_run:
  assumes "cycle_next s < TABLE_SIZE cycle_table" and "wakeup s = 0"
  shows "case dropWhile (\<lambda>ds. ds = []) env of
           [] \<Rightarrow> wait_wakeup hw env s = Inl SpinsForever
         | ds # env' \<Rightarrow>
             (\<exists>s'. wait_wakeup hw env s = Inr (env', s')
                \<and> cycle_next s' < TABLE_SIZE cycle_table
                \<and> sent (trace s') = sent (trace s) \<and> clears (trace s') = clears (trace s)
                \<and> interrupts hw ds s = Inr s' \<and> wakeup s' = 1 \<and> ds \<noteq> []
                \<and> wakes (trace s') = wakes (trace s) + length ds)"
  using assms
proof (induction env arbitrary: s)
  case Nil
  then show ?case by simp
next
  case (Cons ds env)
  from interrupts_quiet [OF Cons.prems(1), of hw ds] obtain s1 where
    s1: "interrupts hw ds s = Inr s1" "cycle_next s1 < TABLE_SIZE cycle_table"
      "ds \<noteq> [] \<longrightarrow> wakeup s1 = 1" "ds = [] \<longrightarrow> s1 = s"
      "sent (trace s1) = sent (trace s)" "clears (trace s1) = clears (trace s)"
      "wakes (trace s1) = wakes (trace s) + length ds"
    by auto
  show ?case
  proof (cases "ds = []")
    case True
    with s1 have w: "wait_wakeup hw (ds # env) s = wait_wakeup hw env s"
      using Cons.prems(2) by simp
    have d: "dropWhile (\<lambda>ds. ds = []) (ds # env) = dropWhile (\<lambda>ds. ds = []) env"
      using True by simp
    show ?thesis
      unfolding w d by (rule Cons.IH [OF Cons.prems])
  next
    case False
    with s1 have w: "wait_wakeup hw (ds # env) s = Inr (env, s1)"
      by simp
    have d: "dropWhile (\<lambda>ds. ds = []) (ds # env) = ds # env"
      using False by simp
    show ?thesis
      unfolding w d using s1 False by simp
  qed
qed

lemma iteration_run:
  assumes "cycle_next s < TABLE_SIZE cycle_table"
  shows "case dropWhile (\<lambda>ds. ds = []) (tl env) of
           [] \<Rightarrow> iteration hw env ci s = Inl SpinsForever
         | ds # env' \<Rightarrow>
             (\<exists>s'. iteration hw env ci s = Inr (env', next_ci ci, s')
                \<and> cycle_next s' < TABLE_SIZE cycle_table
                \<and> sent (trace s') = sent (trace s) @ beat ci
                \<and> clears (trace s') = clears (trace s) + 1
                \<and> wakeup s' = 1 \<and> wakes (trace s') \<ge> wakes (trace s) + 1)"
proof -
  obtain s1 where
    s1: "pending hw env s = Inr (tl env, s1)" "cycle_next s1 < TABLE_SIZE cycle_table"
      "sent (trace s1) = sent (trace s)" "clears (trace s1) = clears (trace s)"
      "wakes (trace s1) \<ge> wakes (trace s)"
  proof (cases env)
    case Nil
    with assms that [of s] show ?thesis
      by (simp add: pending_def)
  next
    case (Cons ds0 env1)
    from interrupts_quiet [OF assms, of hw ds0] obtain t where
      "interrupts hw ds0 s = Inr t" "cycle_next t < TABLE_SIZE cycle_table"
      "sent (trace t) = sent (trace s)" "clears (trace t) = clears (trace s)"
      "wakes (trace t) \<ge> wakes (trace s)"
      by auto
    with Cons that [of t] show ?thesis
      by (simp add: pending_def)
  qed
  let ?s2 = "store_wakeup 0 s1"
  have s2: "cycle_next ?s2 < TABLE_SIZE cycle_table" "wakeup ?s2 = 0"
    "sent (trace ?s2) = sent (trace s)" "clears (trace ?s2) = clears (trace s) + 1"
    "wakes (trace ?s2) \<ge> wakes (trace s)"
    using s1 by (simp_all add: store_wakeup_def emit_def sent_def clears_def wakes_def)
  note W = wait_wakeup_run [OF s2(1,2), where env = "tl env" and hw = hw]
  show ?thesis
  proof (cases "dropWhile (\<lambda>ds. ds = []) (tl env)")
    case Nil
    from W [unfolded Nil] have "wait_wakeup hw (tl env) ?s2 = Inl SpinsForever"
      by simp
    then show ?thesis
      unfolding Nil by (simp add: iteration_def s1(1))
  next
    case (Cons ds env')
    from W [unfolded Cons] obtain s' where
      "wait_wakeup hw (tl env) ?s2 = Inr (env', s')" "cycle_next s' < TABLE_SIZE cycle_table"
      "sent (trace s') = sent (trace ?s2)" "clears (trace s') = clears (trace ?s2)"
      "wakeup s' = 1" "wakes (trace s') \<ge> wakes (trace ?s2) + 1"
      by (auto simp: Suc_le_eq)
    then show ?thesis
      unfolding Cons using s2(5) by (simp add: iteration_def s1(1) s2(1-4) heartbeat_eq)
  qed
qed

lemma unat_j_step: "unat (j :: ushort) < 1000 \<Longrightarrow> unat (j + 1) = unat j + 1"
  by (simp add: unat_word_ariths)

lemma main_loop_run:
  assumes "unat j + n = 1000" and "cycle_next s < TABLE_SIZE cycle_table"
  shows "(waits_end n env \<longrightarrow>
            (\<exists>s'. main_loop hw j ci env s = Inr s'
               \<and> cycle_next s' < TABLE_SIZE cycle_table
               \<and> sent (trace s') = sent (trace s) @ beats n ci
               \<and> clears (trace s') = clears (trace s) + n
               \<and> (0 < n \<or> wakeup s = 1 \<longrightarrow> wakeup s' = 1)
               \<and> wakes (trace s') \<ge> wakes (trace s) + n))
       \<and> (\<not> waits_end n env \<longrightarrow> main_loop hw j ci env s = Inl SpinsForever)"
  using assms
proof (induction n arbitrary: j ci env s)
  case 0
  then have "\<not> j < 1000"
    by (simp add: word_less_nat_alt)
  then show ?case
    using "0.prems" by (simp add: main_loop.simps [of hw j])
next
  case (Suc n)
  then have lt: "unat j < 1000" by simp
  then have j: "j < 1000"
    by (simp add: word_less_nat_alt)
  from lt Suc.prems have j1: "unat (j + 1) + n = 1000"
    by (simp add: unat_j_step)
  note I = iteration_run [OF Suc.prems(2), where env = env and hw = hw and ci = ci]
  show ?case
  proof (cases "dropWhile (\<lambda>ds. ds = []) (tl env)")
    case Nil
    from I [unfolded Nil] have "iteration hw env ci s = Inl SpinsForever"
      by simp
    then show ?thesis
      using j by (simp add: main_loop.simps [of hw j] Nil)
  next
    case (Cons ds env')
    from I [unfolded Cons] obtain s1 where
      s1: "iteration hw env ci s = Inr (env', next_ci ci, s1)"
        "cycle_next s1 < TABLE_SIZE cycle_table"
        "sent (trace s1) = sent (trace s) @ beat ci"
        "clears (trace s1) = clears (trace s) + 1"
        "wakeup s1 = 1" "wakes (trace s1) \<ge> wakes (trace s) + 1"
      by auto
    have m: "main_loop hw j ci env s = main_loop hw (j + 1) (next_ci ci) env' s1"
      using j s1(1) by (simp add: main_loop.simps [of hw j])
    have w: "waits_end (Suc n) env = waits_end n env'"
      by (simp add: Cons)
    from Suc.IH [OF j1 s1(2), where env = env' and ci = "next_ci ci"] s1(6) show ?thesis
      unfolding m w by (auto simp add: s1(3,4,5))
  qed
qed


lemma main_setup_quiet:
  "sent (trace (main_setup hw s)) = sent (trace s)"
  "clears (trace (main_setup hw s)) = clears (trace s)"
  "wakes (trace (main_setup hw s)) = wakes (trace s)"
  by (simp_all add: main_setup_eq sent_def clears_def wakes_def)

lemma main_run:
  "(waits_end 1000 env \<longrightarrow>
      (\<exists>s'. main hw env s = Inr (0, s')
         \<and> cycle_next s' < TABLE_SIZE cycle_table
         \<and> sent (trace s') = sent (trace s) @ beats 1000 (0, 0)
         \<and> clears (trace s') = clears (trace s) + 1000
         \<and> wakeup s' = 1 \<and> wakes (trace s') \<ge> wakes (trace s) + 1000))
   \<and> (\<not> waits_end 1000 env \<longrightarrow> main hw env s = Inl SpinsForever)"
proof -
  have j: "unat (0 :: ushort) + 1000 = 1000"
    by simp
  have b: "cycle_next (main_setup hw s) < TABLE_SIZE cycle_table"
    by (simp add: main_setup_timing table_size)
  from main_loop_run [OF j b, where env = env and hw = hw and ci = "(0, 0)"] show ?thesis
    by (auto simp: main_def main_setup_quiet)
qed

lemma main_spins_forever: "\<not> waits_end 1000 env \<Longrightarrow> main hw env s = Inl SpinsForever"
  using main_run by blast






subsection \<open>The cursor stays in the table\<close>

text \<open>
  Claim C7.  The handler, invoked with the cursor at one of the 12 entries of the table,
  reads in bounds and returns with the cursor again at one of the 12 entries.  The
  setup of \<open>main\<close> puts the cursor at the first entry before interrupts are unlocked,
  so every invocation in any run of interrupts after it succeeds, and the whole program,
  under every schedule of interrupts, never reads outside the table.
\<close>

theorem cursor_in_bounds:
  assumes "cycle_next t < TABLE_SIZE cycle_table"
  shows "(\<exists>t'. output_compare_interrupt hw t = Inr t' \<and> cycle_next t' < TABLE_SIZE cycle_table)
      \<and> cycle_next (main_setup hw s) < TABLE_SIZE cycle_table
      \<and> (\<exists>s'. interrupts hw ds (main_setup hw s) = Inr s' \<and> cycle_next s' < TABLE_SIZE cycle_table)
      \<and> main hw env s \<noteq> Inl OutOfBounds
      \<and> TABLE_SIZE cycle_table = 12"
proof -
  have b: "cycle_next (main_setup hw s) < TABLE_SIZE cycle_table"
    by (simp add: main_setup_timing table_size)
  have "main hw env s \<noteq> Inl OutOfBounds"
    using main_run [of env hw s] by (cases "waits_end 1000 env") auto
  with handler_quiet [OF assms, of hw] interrupts_quiet [OF b, of hw ds] b show ?thesis
    by (auto simp: table_size)
qed


text \<open>The handler at the last entry: the wrap check puts the cursor back to 0.\<close>

theorem cursor_in_bounds_witness:
  "cycle_next ((power_on 0)\<lparr>cycle_next := 11\<rparr>) < TABLE_SIZE cycle_table
   \<and> (\<exists>t'. output_compare_interrupt hc11 ((power_on 0)\<lparr>cycle_next := 11\<rparr>) = Inr t' \<and> cycle_next t' = 0)
   \<and> main hc11 [] (power_on 0) \<noteq> Inl OutOfBounds"
proof -
  have b: "cycle_next ((power_on 0)\<lparr>cycle_next := 11\<rparr>) < TABLE_SIZE cycle_table"
    by (simp add: power_on_def table_size)
  from cursor_in_bounds [OF b, where hw = hc11 and s = "power_on 0" and ds = "[]" and env = "[]"] obtain t' where
    r: "output_compare_interrupt hc11 ((power_on 0)\<lparr>cycle_next := 11\<rparr>) = Inr t'"
    and m: "main hc11 [] (power_on 0) \<noteq> Inl OutOfBounds"
    by blast
  have "cycle_next t' = 0"
    using r by (auto simp: power_on_def hc11_def handler_defs)
  with b r m show ?thesis
    by blast
qed


subsection \<open>The driver loop leaves the timing state alone\<close>

lemma interrupts_append:
  "interrupts hw (a @ b) s =
     (case interrupts hw a s of Inl e \<Rightarrow> Inl e | Inr t \<Rightarrow> interrupts hw b t)"
  by (induction a arbitrary: s) (simp_all split: sum.splits)

lemma interrupts_Inr_bounds:
  "interrupts hw ds s = Inr s' \<Longrightarrow> ds \<noteq> [] \<Longrightarrow> cycle_next s < TABLE_SIZE cycle_table"
  by (cases ds; cases "cycle_next s < TABLE_SIZE cycle_table")
     (simp_all add: handler_out_of_bounds)

lemma interrupts_same_timing:
  assumes "cycle_next s = cycle_next t" and "change_time s = change_time t"
    and "interrupts hw ds s = Inr s'"
  shows "\<exists>t'. interrupts hw ds t = Inr t'
      \<and> cycle_next s' = cycle_next t' \<and> change_time s' = change_time t'"
proof (cases "ds = []")
  case True
  with assms show ?thesis by simp
next
  case False
  from interrupts_Inr_bounds [OF assms(3) False] have b: "cycle_next s < TABLE_SIZE cycle_table" .
  then have b': "cycle_next t < TABLE_SIZE cycle_table"
    using assms(1) by simp
  from interrupts_run [OF b, of hw ds] interrupts_run [OF b', of hw ds] assms show ?thesis
    by auto
qed

lemma wait_wakeup_interrupts:
  "wait_wakeup hw env s = Inr (env', s') \<Longrightarrow>
     \<exists>k. env' = drop k env \<and> interrupts hw (concat (take k env)) s = Inr s'"
proof (induction env arbitrary: s)
  case Nil
  then show ?case by (simp split: if_splits)
next
  case (Cons ds env)
  from Cons.prems obtain s1 where s1: "interrupts hw ds s = Inr s1"
    by (auto split: sum.splits)
  show ?case
  proof (cases "wakeup s1 = 0")
    case True
    with Cons.prems s1 have "wait_wakeup hw env s1 = Inr (env', s')"
      by simp
    from Cons.IH [OF this] obtain k where
      "env' = drop k env" "interrupts hw (concat (take k env)) s1 = Inr s'"
      by blast
    then have "env' = drop (Suc k) (ds # env)
        \<and> interrupts hw (concat (take (Suc k) (ds # env))) s = Inr s'"
      by (simp add: interrupts_append s1)
    then show ?thesis by blast
  next
    case False
    with Cons.prems s1 have "env' = drop (Suc 0) (ds # env)
        \<and> interrupts hw (concat (take (Suc 0) (ds # env))) s = Inr s'"
      by simp
    then show ?thesis by blast
  qed
qed

lemma pending_interrupts:
  "pending hw env s = Inr (env1, s1) \<Longrightarrow>
     env1 = drop 1 env \<and> interrupts hw (concat (take 1 env)) s = Inr s1"
  by (cases env) (auto simp: pending_def split: sum.splits)


text \<open>
  Claim C9.  After the setup, the steps of an iteration of the driver loop leave Change
  Time and the cursor as they are: the store \<open>wakeup = 0\<close>, the activity on the
  serial line, and a test of the flag during which no interrupt is serviced, which
  leaves the whole state as it is.  So when an iteration ends, Change Time and the
  cursor are those that the interrupts serviced during it (\<open>k\<close> elements of the
  schedule) produce by themselves.  The table is a constant of the program: no
  operation takes it as a state or returns it.
\<close>

theorem driver_frame:
  "cycle_next (store_wakeup 0 s) = cycle_next s \<and> change_time (store_wakeup 0 s) = change_time s
   \<and> cycle_next (snd (heartbeat ci s)) = cycle_next s
   \<and> change_time (snd (heartbeat ci s)) = change_time s
   \<and> wait_wakeup hw ([] # env) s = (if wakeup s = 0 then wait_wakeup hw env s else Inr (env, s))
   \<and> (iteration hw env ci s = Inr (env', ci', s') \<longrightarrow>
        (\<exists>k t. env' = drop k env \<and> interrupts hw (concat (take k env)) s = Inr t
           \<and> cycle_next s' = cycle_next t \<and> change_time s' = change_time t))"
proof -
  have step: "cycle_next (store_wakeup 0 s) = cycle_next s"
    "change_time (store_wakeup 0 s) = change_time s"
    "cycle_next (snd (heartbeat ci s)) = cycle_next s"
    "change_time (snd (heartbeat ci s)) = change_time s"
    "wait_wakeup hw ([] # env) s = (if wakeup s = 0 then wait_wakeup hw env s else Inr (env, s))"
    by (simp_all add: store_wakeup_def emit_def heartbeat_eq)
  have "\<exists>k t. env' = drop k env \<and> interrupts hw (concat (take k env)) s = Inr t
           \<and> cycle_next s' = cycle_next t \<and> change_time s' = change_time t"
    if it: "iteration hw env ci s = Inr (env', ci', s')"
  proof -
    from it obtain env1 s1 where p: "pending hw env s = Inr (env1, s1)"
      by (auto simp: iteration_def split: sum.splits)
    with it obtain s3 where w: "wait_wakeup hw env1 (store_wakeup 0 s1) = Inr (env', s3)"
      and h: "s' = snd (heartbeat ci s3)"
      by (auto simp: iteration_def split: sum.splits prod.splits)
    from pending_interrupts [OF p] have e1: "env1 = drop 1 env"
      and i1: "interrupts hw (concat (take 1 env)) s = Inr s1"
      by simp_all
    from wait_wakeup_interrupts [OF w] obtain k where
      e2: "env' = drop k env1"
      and i2: "interrupts hw (concat (take k env1)) (store_wakeup 0 s1) = Inr s3"
      by blast
    have "cycle_next (store_wakeup 0 s1) = cycle_next s1"
      "change_time (store_wakeup 0 s1) = change_time s1"
      by (simp_all add: store_wakeup_def emit_def)
    from interrupts_same_timing [OF this i2] obtain t where
      t: "interrupts hw (concat (take k env1)) s1 = Inr t"
        "cycle_next s3 = cycle_next t" "change_time s3 = change_time t"
      by blast
    have c: "concat (take (1 + k) env) = concat (take 1 env) @ concat (take k env1)"
      unfolding e1 by (cases env) simp_all
    have "interrupts hw (concat (take (1 + k) env)) s = Inr t"
      unfolding c using i1 t(1) by (simp add: interrupts_append)
    moreover have "env' = drop (1 + k) env"
      unfolding e2 e1 by (simp add: add.commute)
    moreover have "cycle_next s' = cycle_next t" "change_time s' = change_time t"
      by (simp_all add: h heartbeat_eq t)
    ultimately show ?thesis
      by blast
  qed
  with step show ?thesis
    by blast
qed


text \<open>One iteration with one interrupt serviced during the wait.\<close>

theorem driver_frame_witness:
  "\<exists>s'. iteration hc11 one_wait (0, 0) (power_on 0) = Inr ([], (1, 0), s')
     \<and> cycle_next s' = 1 \<and> change_time s' = 1000
     \<and> (\<exists>k t. [] = drop k one_wait
          \<and> interrupts hc11 (concat (take k one_wait)) (power_on 0) = Inr t
          \<and> cycle_next s' = cycle_next t \<and> change_time s' = change_time t)"
proof -
  obtain s' where e: "iteration hc11 one_wait (0, 0) (power_on 0) = Inr ([], (1, 0), s')"
    and v: "cycle_next s' = 1" "change_time s' = 1000"
    by (simp add: one_wait_def iteration_def pending_def store_wakeup_def heartbeat_def
        serial_send_def power_on_def hc11_def handler_defs)
  from driver_frame [where hw = hc11 and env = one_wait and ci = "(0, 0)"
      and s = "power_on 0" and env' = "[]" and ci' = "(1, 0)" and s' = s'] e
  have "\<exists>k t. [] = drop k one_wait
          \<and> interrupts hc11 (concat (take k one_wait)) (power_on 0) = Inr t
          \<and> cycle_next s' = cycle_next t \<and> change_time s' = change_time t"
    by blast
  with e v show ?thesis
    by blast
qed


end
